theory Spec2Isabelle
  imports Main "HOL-Library.Multiset" "HOL-Library.Sublist"
begin

section \<open>Algorithmic utilities of the Python skills repository\<close>

text \<open>
  The functions below embed \<^verbatim>\<open>logica_programacao.py\<close> and
  \<^verbatim>\<open>resolucao_problemas.py\<close>. Python's unbounded integers are \<open>int\<close>; \<open>//\<close> and
  \<open>%\<close> are floor division and floor modulus, which is what \<open>div\<close> and \<open>mod\<close> are on
  \<open>int\<close>. Interpreter resource limits (recursion depth, memory) are not part of the model.
\<close>

subsection \<open>Python slices\<close>

text \<open>
  \<^verbatim>\<open>xs[a:]\<close> and \<^verbatim>\<open>xs[:b]\<close>: a negative bound counts from the end, and every bound
  is clamped into \<open>0 .. len(xs)\<close>; a slice never raises.
\<close>

definition py_slice_from :: "'a list \<Rightarrow> int \<Rightarrow> 'a list" where
  "py_slice_from xs a =
     (let n = int (length xs);
          s = (if a < 0 then max (a + n) 0 else min a n)
      in drop (nat s) xs)"

definition py_slice_to :: "'a list \<Rightarrow> int \<Rightarrow> 'a list" where
  "py_slice_to xs b =
     (let n = int (length xs);
          e = (if b < 0 then max (b + n) 0 else min b n)
      in take (nat e) xs)"

subsection \<open>Text\<close>

text \<open>
  A Python \<^verbatim>\<open>str\<close> is a sequence of code points and \<^verbatim>\<open>len\<close> counts them. Text is
  modelled as \<open>string\<close> with one \<open>char\<close> per code point, which covers the code points
  below 256; on that range \<^verbatim>\<open>str.isspace\<close>, \<^verbatim>\<open>str.lower\<close> and the regular-expression
  class \<^verbatim>\<open>\d\<close> are the finite tables written out here.
\<close>

definition codepoint :: "char \<Rightarrow> nat" where
  "codepoint c = of_char c"

definition py_isspace :: "char \<Rightarrow> bool" where
  "py_isspace c = (codepoint c \<in> {9, 10, 11, 12, 13, 28, 29, 30, 31, 32, 133, 160})"

definition py_lower_char :: "char \<Rightarrow> char" where
  "py_lower_char c =
     (let k = codepoint c
      in if (65 \<le> k \<and> k \<le> 90) \<or> (192 \<le> k \<and> k \<le> 222 \<and> k \<noteq> 215)
         then char_of (k + 32) else c)"

definition py_lower :: "string \<Rightarrow> string" where
  "py_lower texto = map py_lower_char texto"

fun py_split_from :: "string \<Rightarrow> string \<Rightarrow> string list" where
  "py_split_from palavra [] = (if palavra = [] then [] else [palavra])"
| "py_split_from palavra (c # cs) =
     (if py_isspace c
      then (if palavra = [] then py_split_from [] cs else palavra # py_split_from [] cs)
      else py_split_from (palavra @ [c]) cs)"

definition py_split :: "string \<Rightarrow> string list" where
  "py_split texto = py_split_from [] texto"

subsection \<open>Indexing\<close>

text \<open>
  \<^verbatim>\<open>xs[i]\<close>: a negative index counts from the end, and an index outside the list
  raises \<^verbatim>\<open>IndexError\<close>.
\<close>

datatype py_error = IndexError

definition py_index :: "'a list \<Rightarrow> int \<Rightarrow> py_error + 'a" where
  "py_index xs i =
     (let n = int (length xs);
          j = (if i < 0 then i + n else i)
      in if 0 \<le> j \<and> j < n then Inr (xs ! nat j) else Inl IndexError)"

subsection \<open>Binary search (\<^verbatim>\<open>busca_binaria\<close>)\<close>

text \<open>
  The \<^verbatim>\<open>while esquerda <= direita\<close> loop is the recursive function
  \<open>busca_binaria_loop\<close> on the two bounds; \<^verbatim>\<open>direita\<close> starts at \<open>len(lista) - 1\<close>,
  which is \<open>- 1\<close> on the empty list, so the bounds are integers.
\<close>

function busca_binaria_loop :: "int list \<Rightarrow> int \<Rightarrow> int \<Rightarrow> int \<Rightarrow> py_error + int" where
  "busca_binaria_loop lista alvo esquerda direita =
     (if esquerda \<le> direita then
        let meio = (esquerda + direita) div 2
        in case py_index lista meio of
             Inl e \<Rightarrow> Inl e
           | Inr x \<Rightarrow>
               if x = alvo then Inr meio
               else if x < alvo then busca_binaria_loop lista alvo (meio + 1) direita
               else busca_binaria_loop lista alvo esquerda (meio - 1)
      else Inr (- 1))"
  by pat_completeness auto
termination
  by (relation "measure (\<lambda>(lista, alvo, esquerda, direita). nat (direita - esquerda + 1))")
     auto

declare busca_binaria_loop.simps [simp del]

definition busca_binaria :: "int list \<Rightarrow> int \<Rightarrow> py_error + int" where
  "busca_binaria lista alvo = busca_binaria_loop lista alvo 0 (int (length lista) - 1)"

subsection \<open>Word frequency (\<^verbatim>\<open>contar_frequencia\<close>, \<^verbatim>\<open>top_n_palavras\<close>)\<close>

text \<open>
  A dictionary keeps its keys in insertion order, and \<^verbatim>\<open>items()\<close> lists them in that
  order: it is an association list in which \<open>dict_set\<close> overwrites the value of a key
  in place and appends a new key at the end.
\<close>

type_synonym ('k, 'v) dict = "('k \<times> 'v) list"

definition dict_get :: "('k, 'v) dict \<Rightarrow> 'k \<Rightarrow> 'v \<Rightarrow> 'v" where
  "dict_get d k padrao = (case map_of d k of None \<Rightarrow> padrao | Some v \<Rightarrow> v)"

fun dict_set :: "('k, 'v) dict \<Rightarrow> 'k \<Rightarrow> 'v \<Rightarrow> ('k, 'v) dict" where
  "dict_set [] k v = [(k, v)]"
| "dict_set ((k', v') # d) k v =
     (if k' = k then (k, v) # d else (k', v') # dict_set d k v)"

definition contar_frequencia :: "string \<Rightarrow> (string, int) dict" where
  "contar_frequencia texto =
     (let palavras = py_split (py_lower texto)
      in foldl (\<lambda>frequencia palavra.
                  dict_set frequencia palavra (dict_get frequencia palavra 0 + 1))
           [] palavras)"

text \<open>
  \<^verbatim>\<open>sorted(xs, key=key, reverse=True)\<close> is a stable sort by descending key: elements
  with equal keys keep their order in \<open>xs\<close>. \<open>sort_key\<close> is a stable insertion sort.
\<close>

definition py_sorted_reverse :: "('a \<Rightarrow> int) \<Rightarrow> 'a list \<Rightarrow> 'a list" where
  "py_sorted_reverse key xs = sort_key (\<lambda>x. - key x) xs"

definition top_n_palavras :: "string \<Rightarrow> int \<Rightarrow> (string \<times> int) list" where
  "top_n_palavras texto n =
     (let frequencia = contar_frequencia texto
      in py_slice_to (py_sorted_reverse snd frequencia) n)"

subsection \<open>Password strength (\<^verbatim>\<open>validar_senha_forte\<close>)\<close>

text \<open>
  \<^verbatim>\<open>re.search\<close> with a pattern that is one character class succeeds exactly when some
  character of the text is in the class. The classes are \<^verbatim>\<open>[A-Z]\<close>, \<^verbatim>\<open>[a-z]\<close>,
  \<^verbatim>\<open>\d\<close> and the set of special characters, whose double quote is \<open>CHR 0x22\<close>.
\<close>

definition classe_maiuscula :: "char \<Rightarrow> bool" where
  "classe_maiuscula c = (codepoint CHR ''A'' \<le> codepoint c \<and> codepoint c \<le> codepoint CHR ''Z'')"

definition classe_minuscula :: "char \<Rightarrow> bool" where
  "classe_minuscula c = (codepoint CHR ''a'' \<le> codepoint c \<and> codepoint c \<le> codepoint CHR ''z'')"

definition classe_digito :: "char \<Rightarrow> bool" where
  "classe_digito c = (codepoint CHR ''0'' \<le> codepoint c \<and> codepoint c \<le> codepoint CHR ''9'')"

definition classe_especial :: "char \<Rightarrow> bool" where
  "classe_especial c = (c \<in> set (''!@#$%^&*(),.?'' @ [CHR 0x22] @ '':{}|<>''))"

definition re_search :: "(char \<Rightarrow> bool) \<Rightarrow> string \<Rightarrow> bool" where
  "re_search classe texto = list_ex classe texto"

text \<open>
  The five reasons, in place of the source's message strings:
  \<open>MinimoCaracteres\<close> for "Minimo 8 caracteres", \<open>FaltaMaiuscula\<close> for
  "Falta letra maiuscula", \<open>FaltaMinuscula\<close> for "Falta letra minuscula",
  \<open>FaltaNumero\<close> for "Falta numero", \<open>FaltaEspecial\<close> for
  "Falta caractere especial".
\<close>

datatype problema =
    MinimoCaracteres | FaltaMaiuscula | FaltaMinuscula | FaltaNumero | FaltaEspecial

definition validar_senha_forte :: "string \<Rightarrow> bool \<times> problema list" where
  "validar_senha_forte senha =
     (let problemas = [];
          problemas = (if length senha < 8 then problemas @ [MinimoCaracteres] else problemas);
          problemas = (if \<not> re_search classe_maiuscula senha
                       then problemas @ [FaltaMaiuscula] else problemas);
          problemas = (if \<not> re_search classe_minuscula senha
                       then problemas @ [FaltaMinuscula] else problemas);
          problemas = (if \<not> re_search classe_digito senha
                       then problemas @ [FaltaNumero] else problemas);
          problemas = (if \<not> re_search classe_especial senha
                       then problemas @ [FaltaEspecial] else problemas)
      in (length problemas = 0, problemas))"

subsection \<open>Merge sort (\<^verbatim>\<open>merge_sort\<close>, \<^verbatim>\<open>mesclar\<close>)\<close>

text \<open>
  Lists are mutable objects and a variable holds a reference to one, so the list objects
  live in a heap: the object at address \<open>r\<close> of heap \<open>h\<close> is \<open>h ! r\<close>. A slice and the
  literal \<^verbatim>\<open>[]\<close> create a new object at a fresh address; \<^verbatim>\<open>append\<close> and
  \<^verbatim>\<open>extend\<close> change the object they are called on in place.
\<close>

type_synonym ref = nat
type_synonym heap = "int list list"

definition alloc :: "int list \<Rightarrow> heap \<Rightarrow> ref \<times> heap" where
  "alloc xs h = (length h, h @ [xs])"

definition py_append :: "ref \<Rightarrow> int \<Rightarrow> heap \<Rightarrow> heap" where
  "py_append r x h = h[r := h ! r @ [x]]"

definition py_extend :: "ref \<Rightarrow> int list \<Rightarrow> heap \<Rightarrow> heap" where
  "py_extend r xs h = h[r := h ! r @ xs]"

text \<open>
  The \<^verbatim>\<open>while\<close> loop of \<^verbatim>\<open>mesclar\<close>, on the references of the two inputs and of
  \<^verbatim>\<open>resultado\<close>; it returns the final \<open>i\<close>, \<open>j\<close> and heap. Not returning is the value
  \<open>None\<close>.
\<close>

partial_function (option) mesclar_loop ::
  "ref \<Rightarrow> ref \<Rightarrow> ref \<Rightarrow> nat \<Rightarrow> nat \<Rightarrow> heap \<Rightarrow> (nat \<times> nat \<times> heap) option" where
  "mesclar_loop esquerda direita resultado i j h =
     (if i < length (h ! esquerda) \<and> j < length (h ! direita) then
        if h ! esquerda ! i \<le> h ! direita ! j
        then mesclar_loop esquerda direita resultado (i + 1) j
               (py_append resultado (h ! esquerda ! i) h)
        else mesclar_loop esquerda direita resultado i (j + 1)
               (py_append resultado (h ! direita ! j) h)
      else Some (i, j, h))"

declare mesclar_loop.simps [code]

text \<open>
  \<^verbatim>\<open>esquerda[i:]\<close> and \<^verbatim>\<open>direita[j:]\<close> are temporary objects consumed at once by
  \<^verbatim>\<open>extend\<close>; only their values are kept.
\<close>

definition mesclar :: "ref \<Rightarrow> ref \<Rightarrow> heap \<Rightarrow> (ref \<times> heap) option" where
  "mesclar esquerda direita h =
     (let (resultado, h) = alloc [] h
      in Option.bind (mesclar_loop esquerda direita resultado 0 0 h)
           (\<lambda>(i, j, h).
              let h = py_extend resultado (py_slice_from (h ! esquerda) (int i)) h;
                  h = py_extend resultado (py_slice_from (h ! direita) (int j)) h
              in Some (resultado, h)))"

text \<open>
  The base case returns the reference it was given. Otherwise each half is a new object,
  sorted by a recursive call; the second slice reads \<^verbatim>\<open>lista\<close> in the heap the first
  call left.
\<close>

partial_function (option) merge_sort :: "ref \<Rightarrow> heap \<Rightarrow> (ref \<times> heap) option" where
  "merge_sort lista h =
     (if length (h ! lista) \<le> 1 then Some (lista, h)
      else
        let meio = int (length (h ! lista)) div 2;
            (metade, h) = alloc (py_slice_to (h ! lista) meio) h
        in Option.bind (merge_sort metade h)
             (\<lambda>(esquerda, h).
                let (metade, h) = alloc (py_slice_from (h ! lista) meio) h
                in Option.bind (merge_sort metade h)
                     (\<lambda>(direita, h). mesclar esquerda direita h)))"

declare merge_sort.simps [code]

subsection \<open>Longest common subsequence (\<^verbatim>\<open>mdc_sequencias\<close>)\<close>

text \<open>
  The table \<^verbatim>\<open>dp\<close> is a list of \<open>m + 1\<close> separate rows of \<open>n + 1\<close> zeros. The loops run
  over \<^verbatim>\<open>range(1, m + 1)\<close> and \<^verbatim>\<open>range(1, n + 1)\<close>, so every index \<open>i - 1\<close>, \<open>j - 1\<close>,
  \<open>i\<close>, \<open>j\<close> is inside the sequences and the table, and none is negative.
  \<open>mdc_celula\<close> is the body of the inner loop, \<open>mdc_linha\<close> the inner loop for one \<open>i\<close>.
  The sequences are lists over any element type; a \<^verbatim>\<open>str\<close> is the instance \<open>string\<close>.
\<close>

definition mdc_celula :: "'a list \<Rightarrow> 'a list \<Rightarrow> nat \<Rightarrow> int list list \<Rightarrow> nat \<Rightarrow> int list list" where
  "mdc_celula seq1 seq2 i dp j =
     (if seq1 ! (i - 1) = seq2 ! (j - 1)
      then dp[i := (dp ! i)[j := dp ! (i - 1) ! (j - 1) + 1]]
      else dp[i := (dp ! i)[j := max (dp ! (i - 1) ! j) (dp ! i ! (j - 1))]])"

definition mdc_linha :: "'a list \<Rightarrow> 'a list \<Rightarrow> int list list \<Rightarrow> nat \<Rightarrow> int list list" where
  "mdc_linha seq1 seq2 dp i = foldl (mdc_celula seq1 seq2 i) dp [1..<length seq2 + 1]"

definition mdc_tabela :: "'a list \<Rightarrow> 'a list \<Rightarrow> int list list" where
  "mdc_tabela seq1 seq2 =
     (let m = length seq1; n = length seq2;
          dp = replicate (m + 1) (replicate (n + 1) 0)
      in foldl (mdc_linha seq1 seq2) dp [1..<m + 1])"

text \<open>
  The reconstruction loop \<^verbatim>\<open>while i > 0 and j > 0\<close>, with \<^verbatim>\<open>resultado\<close> as
  accumulator; joining the reversed \<^verbatim>\<open>resultado\<close> gives its reversal as a string.
\<close>

function mdc_reconstruir ::
  "'a list \<Rightarrow> 'a list \<Rightarrow> int list list \<Rightarrow> nat \<Rightarrow> nat \<Rightarrow> 'a list \<Rightarrow> 'a list" where
  "mdc_reconstruir seq1 seq2 dp i j resultado =
     (if i > 0 \<and> j > 0 then
        if seq1 ! (i - 1) = seq2 ! (j - 1)
        then mdc_reconstruir seq1 seq2 dp (i - 1) (j - 1) (resultado @ [seq1 ! (i - 1)])
        else if dp ! (i - 1) ! j > dp ! i ! (j - 1)
        then mdc_reconstruir seq1 seq2 dp (i - 1) j resultado
        else mdc_reconstruir seq1 seq2 dp i (j - 1) resultado
      else resultado)"
  by pat_completeness auto
termination
  by (relation "measure (\<lambda>(seq1, seq2, dp, i, j, resultado). i + j)") auto

declare mdc_reconstruir.simps [simp del]

definition mdc_sequencias :: "'a list \<Rightarrow> 'a list \<Rightarrow> 'a list" where
  "mdc_sequencias seq1 seq2 =
     (let m = length seq1; n = length seq2;
          dp = mdc_tabela seq1 seq2;
          resultado = mdc_reconstruir seq1 seq2 dp m n []
      in rev resultado)"

subsection \<open>Memoised Fibonacci (\<^verbatim>\<open>fibonacci\<close>)\<close>

text \<open>
  The memo is a dictionary from \<open>int\<close> to \<open>int\<close> that the calls share and update, so it is
  passed in and returned. \<open>fibonacci_memo\<close> is the body once \<^verbatim>\<open>memo\<close> is a dictionary;
  the right-hand side of \<^verbatim>\<open>memo[n] = fibonacci(n - 1, memo) + fibonacci(n - 2, memo)\<close>
  is evaluated left to right before the store, and \<^verbatim>\<open>return memo[n]\<close> reads the value
  just stored.
\<close>

function fibonacci_memo :: "int \<Rightarrow> (int \<rightharpoonup> int) \<Rightarrow> int \<times> (int \<rightharpoonup> int)" where
  "fibonacci_memo n memo =
     (case memo n of
        Some v \<Rightarrow> (v, memo)
      | None \<Rightarrow>
          if n \<le> 1 then (n, memo)
          else
            let (a, memo1) = fibonacci_memo (n - 1) memo;
                (b, memo2) = fibonacci_memo (n - 2) memo1
            in (a + b, memo2(n \<mapsto> a + b)))"
  by pat_completeness auto
termination
  by (relation "measure (\<lambda>(n, memo). nat n)") auto

declare fibonacci_memo.simps [simp del]

text \<open>The entry point: \<^verbatim>\<open>memo=None\<close> stands for a fresh empty dictionary.\<close>

definition fibonacci :: "int \<Rightarrow> (int \<rightharpoonup> int) option \<Rightarrow> int \<times> (int \<rightharpoonup> int)" where
  "fibonacci n memo =
     fibonacci_memo n (case memo of None \<Rightarrow> Map.empty | Some m \<Rightarrow> m)"

subsection \<open>Set algebra (\<^verbatim>\<open>operacoes_conjuntos\<close>)\<close>

text \<open>The returned dictionary has four fixed keys, so it is a record of four sets.\<close>

record operacoes =
  uniao :: "int set"
  interseccao :: "int set"
  diferenca :: "int set"
  diferenca_simetrica :: "int set"

definition operacoes_conjuntos :: "int set \<Rightarrow> int set \<Rightarrow> operacoes" where
  "operacoes_conjuntos conjunto_a conjunto_b =
     \<lparr> uniao = conjunto_a \<union> conjunto_b,
       interseccao = conjunto_a \<inter> conjunto_b,
       diferenca = conjunto_a - conjunto_b,
       diferenca_simetrica = (conjunto_a - conjunto_b) \<union> (conjunto_b - conjunto_a) \<rparr>"

subsection \<open>Proper divisors, perfect and amicable numbers\<close>

text \<open>
  \<^verbatim>\<open>range(1, numero)\<close> is \<open>[1..numero - 1]\<close>, empty when \<open>numero \<le> 1\<close>; the loop appends
  every \<open>i\<close> of it with \<^verbatim>\<open>numero % i == 0\<close>.
\<close>

definition encontrar_divisores :: "int \<Rightarrow> int list" where
  "encontrar_divisores numero =
     foldl (\<lambda>divisores i. if numero mod i = 0 then divisores @ [i] else divisores)
       [] [1..numero - 1]"

definition eh_numero_perfeito :: "int \<Rightarrow> bool" where
  "eh_numero_perfeito numero = (numero = sum_list (encontrar_divisores numero))"

definition sao_numeros_amigos :: "int \<Rightarrow> int \<Rightarrow> bool" where
  "sao_numeros_amigos a b =
     (let soma_divisores_a = sum_list (encontrar_divisores a);
          soma_divisores_b = sum_list (encontrar_divisores b)
      in soma_divisores_a = b \<and> soma_divisores_b = a)"

subsection \<open>Array rotation (\<^verbatim>\<open>rotacionar_array\<close>)\<close>

definition rotacionar_array :: "int list \<Rightarrow> int \<Rightarrow> int list" where
  "rotacionar_array array posicoes =
     (if array = [] then array
      else
        let posicoes = posicoes mod int (length array)
        in py_slice_from array (- posicoes) @ py_slice_to array (- posicoes))"

section \<open>Reference notions of the specification\<close>

text \<open>The Fibonacci recurrence \<open>F(0) = 0\<close>, \<open>F(1) = 1\<close>, \<open>F(n) = F(n - 1) + F(n - 2)\<close>.\<close>

fun fib_ref :: "nat \<Rightarrow> int" where
  "fib_ref 0 = 0"
| "fib_ref (Suc 0) = 1"
| "fib_ref (Suc (Suc n)) = fib_ref (Suc n) + fib_ref n"

text \<open>One step of right rotation moves the last element to the front.\<close>

definition rotate1_right :: "'a list \<Rightarrow> 'a list" where
  "rotate1_right xs = (if xs = [] then [] else last xs # butlast xs)"

text \<open>
  When each of the five password checks fails, in the words of the specification: the
  length is below 8, or the password has no character of the given alphabet.
\<close>

fun check_fails :: "string \<Rightarrow> problema \<Rightarrow> bool" where
  "check_fails s MinimoCaracteres = (length s < 8)"
| "check_fails s FaltaMaiuscula = (set s \<inter> set ''ABCDEFGHIJKLMNOPQRSTUVWXYZ'' = {})"
| "check_fails s FaltaMinuscula = (set s \<inter> set ''abcdefghijklmnopqrstuvwxyz'' = {})"
| "check_fails s FaltaNumero = (set s \<inter> set ''0123456789'' = {})"
| "check_fails s FaltaEspecial =
     (set s \<inter> set (''!@#$%^&*(),.?'' @ [CHR 0x22] @ '':{}|<>'') = {})"

section \<open>Invariants\<close>

text \<open>
  What a correct memo entry for \<open>k\<close> holds: \<open>k\<close> itself below 2 (the base case returns its
  argument), the recurrence's value otherwise.
\<close>

definition fib_val :: "int \<Rightarrow> int" where
  "fib_val n = (if n \<le> 1 then n else fib_ref (nat n))"

definition memo_ok :: "(int \<rightharpoonup> int) \<Rightarrow> bool" where
  "memo_ok memo = (\<forall>k v. memo k = Some v \<longrightarrow> v = fib_val k)"

text \<open>
  The recurrence of the table: the length of a longest common subsequence of the first
  \<open>i\<close> elements of \<open>xs\<close> and the first \<open>j\<close> elements of \<open>ys\<close>.
\<close>

fun lcs_len :: "'a list \<Rightarrow> 'a list \<Rightarrow> nat \<Rightarrow> nat \<Rightarrow> nat" where
  "lcs_len xs ys 0 j = 0"
| "lcs_len xs ys (Suc i) 0 = 0"
| "lcs_len xs ys (Suc i) (Suc j) =
     (if xs ! i = ys ! j then lcs_len xs ys i j + 1
      else max (lcs_len xs ys i (Suc j)) (lcs_len xs ys (Suc i) j))"

text \<open>The table is right up to row \<open>i\<close>, column \<open>j\<close> (row-major), and in column 0.\<close>

definition tabela_ok :: "'a list \<Rightarrow> 'a list \<Rightarrow> nat \<Rightarrow> nat \<Rightarrow> int list list \<Rightarrow> bool" where
  "tabela_ok xs ys i j dp =
     (length dp = length xs + 1
      \<and> (\<forall>r\<le>length xs. length (dp ! r) = length ys + 1)
      \<and> (\<forall>r\<le>length xs. \<forall>c\<le>length ys.
            (r < i \<or> c = 0 \<or> (r = i \<and> c < j)) \<longrightarrow> dp ! r ! c = int (lcs_len xs ys r c)))"

text \<open>
  What the merge loop leaves behind, started at \<open>i\<close>, \<open>j\<close> in heap \<open>h\<close>: only the object
  \<open>r\<close> has changed, it is sorted and below what is left of both inputs, no element was
  lost or added, and one input is used up.
\<close>

definition mesclar_loop_post ::
  "ref \<Rightarrow> ref \<Rightarrow> ref \<Rightarrow> nat \<Rightarrow> nat \<Rightarrow> heap \<Rightarrow> nat \<times> nat \<times> heap \<Rightarrow> bool" where
  "mesclar_loop_post e d r i j h res =
     (case res of (i', j', h') \<Rightarrow>
        length h' = length h
        \<and> (\<forall>a<length h. a \<noteq> r \<longrightarrow> h' ! a = h ! a)
        \<and> sorted (h' ! r)
        \<and> (\<forall>x\<in>set (h' ! r). \<forall>y\<in>set (drop i' (h ! e)) \<union> set (drop j' (h ! d)). x \<le> y)
        \<and> mset (h' ! r) + mset (drop i' (h ! e)) + mset (drop j' (h ! d))
            = mset (h ! r) + mset (drop i (h ! e)) + mset (drop j (h ! d))
        \<and> (length (h ! e) \<le> i' \<or> length (h ! d) \<le> j'))"

section \<open>Fibonacci\<close>

lemma fib_val_nonneg: "0 \<le> k \<Longrightarrow> fib_val k = fib_ref (nat k)"
proof -
  assume k: "0 \<le> k"
  consider "k = 0" | "k = 1" | "1 < k" using k by linarith
  then show ?thesis
    by cases (simp_all add: fib_val_def)
qed

lemma fib_val_rec: "1 < n \<Longrightarrow> fib_val n = fib_val (n - 1) + fib_val (n - 2)"
proof -
  assume n: "1 < n"
  have k: "nat n = Suc (Suc (nat (n - 2)))" and k1: "nat (n - 1) = Suc (nat (n - 2))"
    using n by simp_all
  have "fib_val n = fib_ref (nat n)" using n by (simp add: fib_val_def)
  also have "\<dots> = fib_ref (nat (n - 1)) + fib_ref (nat (n - 2))"
    by (simp only: k k1 fib_ref.simps)
  also have "\<dots> = fib_val (n - 1) + fib_val (n - 2)"
    using n by (simp add: fib_val_nonneg)
  finally show ?thesis .
qed

text \<open>A call on a correct memo returns the right value and leaves a correct memo.\<close>

lemma fibonacci_memo_ok:
  "memo_ok memo \<Longrightarrow>
     fst (fibonacci_memo n memo) = fib_val n \<and> memo_ok (snd (fibonacci_memo n memo))"
proof (induction n memo rule: fibonacci_memo.induct)
  case (1 n memo)
  show ?case
  proof (cases "memo n")
    case (Some v)
    with "1.prems" show ?thesis
      by (simp add: fibonacci_memo.simps [of n memo] memo_ok_def)
  next
    case None
    show ?thesis
    proof (cases "n \<le> 1")
      case True
      with None "1.prems" show ?thesis
        by (simp add: fibonacci_memo.simps [of n memo] fib_val_def)
    next
      case False
      obtain a memo1 where r1: "fibonacci_memo (n - 1) memo = (a, memo1)"
        by (cases "fibonacci_memo (n - 1) memo")
      obtain b memo2 where r2: "fibonacci_memo (n - 2) memo1 = (b, memo2)"
        by (cases "fibonacci_memo (n - 2) memo1")
      from "1.IH"(1) [OF None False "1.prems"] r1
      have a: "a = fib_val (n - 1)" and ok1: "memo_ok memo1" by simp_all
      from "1.IH"(2) [OF None False r1 [symmetric] refl ok1] r2
      have b: "b = fib_val (n - 2)" and ok2: "memo_ok memo2" by simp_all
      from False have rec: "fib_val n = a + b"
        by (simp add: a b fib_val_rec)
      have res: "fibonacci_memo n memo = (a + b, memo2(n \<mapsto> a + b))"
        using None False r1 r2 by (simp add: fibonacci_memo.simps [of n memo])
      from ok2 rec have okn: "memo_ok (memo2(n \<mapsto> a + b))"
        by (simp add: memo_ok_def)
      show ?thesis
        by (simp only: res fst_conv snd_conv rec okn)
    qed
  qed
qed

text \<open>
  Claim C6. For every integer \<open>n \<ge> 0\<close>, \<open>fibonacci(n)\<close> called without a memo returns the
  value of the recurrence \<open>F(0) = 0\<close>, \<open>F(1) = 1\<close>, \<open>F(n) = F(n - 1) + F(n - 2)\<close>; in
  particular \<open>fibonacci(10) = 55\<close>.
\<close>

theorem fibonacci_matches_recurrence:
  "(0 \<le> n \<longrightarrow> fst (fibonacci n None) = fib_ref (nat n))
     \<and> fst (fibonacci 10 None) = 55"
proof -
  have e: "memo_ok Map.empty" by (simp add: memo_ok_def)
  have "fst (fibonacci n None) = fib_val n" for n
    using fibonacci_memo_ok [OF e, of n] by (simp add: fibonacci_def)
  moreover have "fib_ref (nat 10) = 55" by code_simp
  ultimately show ?thesis by (simp add: fib_val_nonneg)
qed

theorem fibonacci_matches_recurrence_witness:
  "(0::int) \<le> 7 \<and> fst (fibonacci 7 None) = fib_ref (nat 7) \<and> fib_ref (nat 7) = 13"
proof -
  have "fib_ref (nat 7) = 13" by code_simp
  then show ?thesis using fibonacci_matches_recurrence [of 7] by simp
qed

text \<open>
  Claim C10. For every integer \<open>n < 0\<close>, \<open>fibonacci(n)\<close> called without a memo returns \<open>n\<close>
  itself and raises nothing: the base case returns \<open>n\<close> whenever \<open>n \<le> 1\<close>.
\<close>

theorem fibonacci_negative_returns_input:
  "n < 0 \<Longrightarrow> fst (fibonacci n None) = n"
  by (simp add: fibonacci_def fibonacci_memo.simps [of n])

theorem fibonacci_negative_returns_input_witness:
  "(- 5 :: int) < 0 \<and> fst (fibonacci (- 5) None) = - 5"
  using fibonacci_negative_returns_input [of "- 5"] by simp

section \<open>Set algebra\<close>

text \<open>
  Claim C8. For all sets of integers \<open>A\<close> and \<open>B\<close>, the union component of
  \<open>set_algebra(A, B)\<close> equals that of \<open>set_algebra(B, A)\<close>, and so does the symmetric
  difference component.
\<close>

theorem operacoes_conjuntos_commute:
  "uniao (operacoes_conjuntos A B) = uniao (operacoes_conjuntos B A)
     \<and> diferenca_simetrica (operacoes_conjuntos A B)
         = diferenca_simetrica (operacoes_conjuntos B A)"
  by (simp add: operacoes_conjuntos_def Un_commute)

section \<open>Perfect and amicable numbers\<close>

lemma foldl_append_filter:
  "foldl (\<lambda>acc i. if P i then acc @ [i] else acc) acc xs = acc @ filter P xs"
  by (induction xs arbitrary: acc) simp_all

lemma encontrar_divisores_filter:
  "encontrar_divisores n = filter (\<lambda>i. n mod i = 0) [1..n - 1]"
  by (simp add: encontrar_divisores_def foldl_append_filter)

text \<open>The list sums exactly the proper divisors of \<open>n\<close>.\<close>

lemma sum_list_encontrar_divisores:
  "sum_list (encontrar_divisores n) = (\<Sum>d | 1 \<le> d \<and> d < n \<and> d dvd n. d)"
proof -
  have d: "distinct (encontrar_divisores n)"
    by (simp add: encontrar_divisores_filter)
  have s: "set (encontrar_divisores n) = {d. 1 \<le> d \<and> d < n \<and> d dvd n}"
    by (auto simp: encontrar_divisores_filter dvd_eq_mod_eq_0)
  show ?thesis
    using sum_list_distinct_conv_sum_set [OF d, of "\<lambda>d. d"] by (simp add: s)
qed

text \<open>
  Claim C9. For every integer \<open>n \<ge> 1\<close> that equals the sum of its proper divisors,
  \<open>are_amicable(n, n)\<close> returns true (and \<open>is_perfect_number(n)\<close> does too): the code has
  no check that the two numbers differ. In particular \<open>are_amicable(6, 6)\<close> is true.
\<close>

theorem perfect_number_amicable_with_itself:
  "(1 \<le> n \<and> n = (\<Sum>d | 1 \<le> d \<and> d < n \<and> d dvd n. d) \<longrightarrow>
      eh_numero_perfeito n \<and> sao_numeros_amigos n n)
   \<and> sao_numeros_amigos 6 6"
proof -
  have "sao_numeros_amigos 6 6" by code_simp
  then show ?thesis
    by (simp add: eh_numero_perfeito_def sao_numeros_amigos_def sum_list_encontrar_divisores)
qed

theorem perfect_number_amicable_with_itself_witness:
  "(1::int) \<le> 28 \<and> (28::int) = (\<Sum>d | 1 \<le> d \<and> d < 28 \<and> d dvd 28. d)
     \<and> eh_numero_perfeito 28 \<and> sao_numeros_amigos 28 28"
proof -
  have "sum_list (encontrar_divisores 28) = 28" by code_simp
  then have "(28::int) = (\<Sum>d | 1 \<le> d \<and> d < 28 \<and> d dvd 28. d)"
    by (simp add: sum_list_encontrar_divisores)
  then show ?thesis
    using perfect_number_amicable_with_itself [of 28] by simp
qed

section \<open>Array rotation\<close>

lemma rotate1_right_funpow:
  "p \<le> length xs \<Longrightarrow>
     (rotate1_right ^^ p) xs = drop (length xs - p) xs @ take (length xs - p) xs"
proof (induction p)
  case 0
  then show ?case by simp
next
  case (Suc p)
  let ?k = "length xs - Suc p"
  from Suc.prems have k: "Suc ?k = length xs - p" "?k < length xs" by simp_all
  have tk: "take (length xs - p) xs = take ?k xs @ [xs ! ?k]"
    using k by (metis take_Suc_conv_app_nth)
  have dk: "drop ?k xs = xs ! ?k # drop (length xs - p) xs"
    using k by (metis Cons_nth_drop_Suc)
  from Suc have "(rotate1_right ^^ Suc p) xs =
      rotate1_right (drop (length xs - p) xs @ take (length xs - p) xs)"
    by simp
  also have "\<dots> = xs ! ?k # (drop (length xs - p) xs @ take ?k xs)"
    by (simp add: tk rotate1_right_def butlast_append)
  also have "\<dots> = drop ?k xs @ take ?k xs"
    by (simp add: dk)
  finally show ?case .
qed

lemma rotacionar_array_drop_take:
  assumes "array \<noteq> []"
  shows "rotacionar_array array k =
     (let p = nat (k mod int (length array))
      in drop (length array - p) array @ take (length array - p) array)"
proof -
  let ?n = "int (length array)"
  let ?p = "k mod ?n"
  from assms have n: "0 < ?n" by simp
  then have p: "0 \<le> ?p" "?p < ?n" by simp_all
  show ?thesis
  proof (cases "?p = 0")
    case True
    with assms show ?thesis
      by (simp add: rotacionar_array_def py_slice_from_def py_slice_to_def)
  next
    case False
    with p have "0 < ?p" by simp
    moreover have "nat (?n - ?p) = length array - nat ?p"
      using p by (simp add: nat_diff_distrib)
    ultimately show ?thesis
      using assms p
      by (simp add: rotacionar_array_def py_slice_from_def py_slice_to_def Let_def
          max_def algebra_simps)
  qed
qed

text \<open>
  Claim C5. For every non-empty list \<open>S\<close> and every integer \<open>k\<close>, negative or beyond the
  length included, \<open>rotate_right(S, k)\<close> is \<open>S\<close> rotated right by \<open>k mod len(S)\<close> positions;
  on the empty list it returns the empty list; and
  \<open>rotate_right([1,2,3,4,5], 2) = [4,5,1,2,3]\<close>.
\<close>

theorem rotacionar_array_rotates_right:
  "(array \<noteq> [] \<longrightarrow>
      rotacionar_array array k = (rotate1_right ^^ nat (k mod int (length array))) array)
   \<and> rotacionar_array [] k = []
   \<and> rotacionar_array [1, 2, 3, 4, 5] 2 = [4, 5, 1, 2, 3]"
proof -
  have a: "rotacionar_array array k = (rotate1_right ^^ nat (k mod int (length array))) array"
    if ne: "array \<noteq> []"
  proof -
    have "nat (k mod int (length array)) \<le> length array"
      using ne by (simp add: nat_le_iff less_imp_le)
    then show ?thesis
      by (simp add: rotacionar_array_drop_take [OF ne] rotate1_right_funpow Let_def)
  qed
  have b: "rotacionar_array [] k = []"
    by (simp add: rotacionar_array_def)
  have c: "rotacionar_array [1, 2, 3, 4, 5] 2 = [4, 5, 1, 2, 3]"
    by (simp add: rotacionar_array_def py_slice_from_def py_slice_to_def)
  from a b c show ?thesis by blast
qed

theorem rotacionar_array_rotates_right_witness:
  "[1, 2, 3 :: int] \<noteq> [] \<and> rotacionar_array [1, 2, 3] (- 4) = [2, 3, 1]
     \<and> (rotate1_right ^^ nat (- 4 mod int (length [1, 2, 3 :: int]))) [1, 2, 3 :: int]
         = [2, 3, 1]"
proof -
  have "rotacionar_array [1, 2, 3] (- 4) = [2, 3, 1]"
    by (simp add: rotacionar_array_def py_slice_from_def py_slice_to_def)
  then show ?thesis
    using rotacionar_array_rotates_right [of "[1, 2, 3]" "- 4"] by simp
qed

section \<open>Binary search\<close>

text \<open>
  The loop invariant: the bounds stay inside the list and every position that holds the
  target lies between them.
\<close>

lemma busca_binaria_loop_correct:
  "sorted lista \<Longrightarrow> 0 \<le> esquerda \<Longrightarrow> direita < int (length lista) \<Longrightarrow>
   (\<forall>k < length lista. lista ! k = alvo \<longrightarrow> esquerda \<le> int k \<and> int k \<le> direita) \<Longrightarrow>
   (alvo \<in> set lista \<longrightarrow>
      (\<exists>i. busca_binaria_loop lista alvo esquerda direita = Inr i
           \<and> 0 \<le> i \<and> i < int (length lista) \<and> lista ! nat i = alvo))
   \<and> (alvo \<notin> set lista \<longrightarrow> busca_binaria_loop lista alvo esquerda direita = Inr (- 1))"
proof (induction lista alvo esquerda direita rule: busca_binaria_loop.induct)
  case (1 lista alvo esquerda direita)
  note srt = "1.prems"(1) and lo = "1.prems"(2) and hi = "1.prems"(3) and win = "1.prems"(4)
  show ?case
  proof (cases "esquerda \<le> direita")
    case False
    have "alvo \<notin> set lista"
    proof
      assume "alvo \<in> set lista"
      then obtain k where "k < length lista" "lista ! k = alvo"
        by (auto simp: in_set_conv_nth)
      with win False show False by force
    qed
    with False show ?thesis
      by (simp add: busca_binaria_loop.simps [of lista alvo esquerda direita])
  next
    case True
    define meio where "meio = (esquerda + direita) div 2"
    have m: "esquerda \<le> meio" "meio \<le> direita"
      using True by (simp_all add: meio_def)
    with lo hi have mr: "0 \<le> meio" "meio < int (length lista)" by simp_all
    then have idx: "py_index lista meio = Inr (lista ! nat meio)"
      by (simp add: py_index_def)
    have nm: "nat meio < length lista" using mr by simp
    consider (eq) "lista ! nat meio = alvo" | (lt) "lista ! nat meio < alvo"
      | (gt) "alvo < lista ! nat meio" by linarith
    then show ?thesis
    proof cases
      case eq
      then have "busca_binaria_loop lista alvo esquerda direita = Inr meio"
        using True idx
        by (simp add: busca_binaria_loop.simps [of lista alvo esquerda direita] meio_def)
      moreover have "alvo \<in> set lista" using eq nm by (metis nth_mem)
      ultimately show ?thesis using mr eq by simp
    next
      case lt
      have step: "busca_binaria_loop lista alvo esquerda direita
            = busca_binaria_loop lista alvo (meio + 1) direita"
        using True idx lt
        by (simp add: busca_binaria_loop.simps [of lista alvo esquerda direita] meio_def)
      have win': "\<forall>k < length lista. lista ! k = alvo \<longrightarrow> meio + 1 \<le> int k \<and> int k \<le> direita"
      proof (intro allI impI)
        fix k assume k: "k < length lista" "lista ! k = alvo"
        have "\<not> k \<le> nat meio"
        proof
          assume "k \<le> nat meio"
          with srt nm have "lista ! k \<le> lista ! nat meio"
            by (metis sorted_nth_mono)
          with k lt show False by simp
        qed
        with win k show "meio + 1 \<le> int k \<and> int k \<le> direita" by force
      qed
      have lo': "0 \<le> meio + 1" using mr by simp
      from lt have ne: "lista ! nat meio \<noteq> alvo" by simp
      from "1.IH"(1) [OF True meio_def idx ne lt srt lo' hi win']
      show ?thesis by (simp only: step)
    next
      case gt
      have step: "busca_binaria_loop lista alvo esquerda direita
            = busca_binaria_loop lista alvo esquerda (meio - 1)"
        using True idx gt
        by (simp add: busca_binaria_loop.simps [of lista alvo esquerda direita] meio_def)
      have win': "\<forall>k < length lista. lista ! k = alvo \<longrightarrow> esquerda \<le> int k \<and> int k \<le> meio - 1"
      proof (intro allI impI)
        fix k assume k: "k < length lista" "lista ! k = alvo"
        have "\<not> nat meio \<le> k"
        proof
          assume "nat meio \<le> k"
          with srt k(1) have "lista ! nat meio \<le> lista ! k"
            by (metis sorted_nth_mono)
          with k gt show False by simp
        qed
        with win k show "esquerda \<le> int k \<and> int k \<le> meio - 1" by force
      qed
      have hi': "meio - 1 < int (length lista)" using mr by simp
      from gt have ne: "lista ! nat meio \<noteq> alvo" and nlt: "\<not> lista ! nat meio < alvo"
        by simp_all
      from "1.IH"(2) [OF True meio_def idx ne nlt srt lo hi' win']
      show ?thesis by (simp only: step)
    qed
  qed
qed

text \<open>
  Claim C2. For every list of integers sorted in ascending order and every value \<open>v\<close>:
  if \<open>v\<close> occurs in the list, \<open>binary_search\<close> returns an index \<open>i\<close> of the list with
  \<open>S[i] = v\<close>; if it does not occur (as in the empty list), it returns \<open>- 1\<close>. No
  \<^verbatim>\<open>IndexError\<close> is raised.
\<close>

theorem busca_binaria_correct:
  "sorted lista \<Longrightarrow>
   (alvo \<in> set lista \<longrightarrow>
      (\<exists>i. busca_binaria lista alvo = Inr i
           \<and> 0 \<le> i \<and> i < int (length lista) \<and> lista ! nat i = alvo))
   \<and> (alvo \<notin> set lista \<longrightarrow> busca_binaria lista alvo = Inr (- 1))"
  unfolding busca_binaria_def
  by (rule busca_binaria_loop_correct) auto

theorem busca_binaria_correct_witness:
  "sorted [1, 3, 5, 7 :: int] \<and> (5::int) \<in> set [1, 3, 5, 7] \<and> (4::int) \<notin> set [1, 3, 5, 7]
     \<and> (\<exists>i. busca_binaria [1, 3, 5, 7] 5 = Inr i \<and> [1, 3, 5, 7 :: int] ! nat i = 5)
     \<and> busca_binaria [1, 3, 5, 7] 4 = Inr (- 1)
     \<and> busca_binaria [] 4 = Inr (- 1)"
proof -
  have s: "sorted [1, 3, 5, 7 :: int]" and e: "sorted ([] :: int list)" by simp_all
  show ?thesis
    using busca_binaria_correct [OF s, of 5] busca_binaria_correct [OF s, of 4]
      busca_binaria_correct [OF e, of 4]
    by auto
qed

section \<open>Word frequency\<close>

lemma map_fst_dict_set:
  "map fst (dict_set d k v) = (if k \<in> set (map fst d) then map fst d else map fst d @ [k])"
  by (induction d) (fastforce simp: image_iff)+

lemma dict_set_keys: "set (map fst (dict_set d k v)) = insert k (set (map fst d))"
  by (auto simp only: map_fst_dict_set set_append list.set split: if_splits)

lemma dict_set_distinct: "distinct (map fst d) \<Longrightarrow> distinct (map fst (dict_set d k v))"
  by (simp only: map_fst_dict_set distinct_append split: if_splits) simp

lemma contar_fold_keys:
  "set (map fst (foldl (\<lambda>f p. dict_set f p (g f p)) d ps)) = set (map fst d) \<union> set ps"
proof (induction ps arbitrary: d)
  case Nil
  show ?case by simp
next
  case (Cons p ps)
  have "set (map fst (foldl (\<lambda>f p. dict_set f p (g f p)) (dict_set d p (g d p)) ps))
      = set (map fst (dict_set d p (g d p))) \<union> set ps"
    by (rule Cons.IH)
  then show ?case
    by (simp only: foldl_Cons dict_set_keys list.set) blast
qed

lemma contar_fold_distinct:
  "distinct (map fst d) \<Longrightarrow> distinct (map fst (foldl (\<lambda>f p. dict_set f p (g f p)) d ps))"
proof (induction ps arbitrary: d)
  case Nil
  then show ?case by simp
next
  case (Cons p ps)
  from Cons.prems have "distinct (map fst (dict_set d p (g d p)))"
    by (rule dict_set_distinct)
  then show ?case
    by (simp only: foldl_Cons Cons.IH)
qed

lemma length_contar_frequencia:
  "length (contar_frequencia texto) = card (set (py_split (py_lower texto)))"
proof -
  let ?d = "contar_frequencia texto"
  have k: "set (map fst ?d) = set (py_split (py_lower texto))"
    unfolding contar_frequencia_def Let_def
    using contar_fold_keys [of "\<lambda>f p. dict_get f p 0 + 1" "[]"] by simp
  have "distinct (map fst ?d)"
    unfolding contar_frequencia_def Let_def
    using contar_fold_distinct [of "[]" "\<lambda>f p. dict_get f p 0 + 1"] by simp
  then have "card (set (map fst ?d)) = length (map fst ?d)"
    by (rule distinct_card)
  with k show ?thesis by simp
qed

text \<open>
  Claim C4, as amended. \<open>top_n(text, 0)\<close> is the empty list. For \<open>n < 0\<close> the slice
  \<^verbatim>\<open>[:n]\<close> drops the last \<open>- n\<close> entries of the ranked list, so \<open>top_n(text, n)\<close> has
  as many entries as the text has distinct tokens, less \<open>- n\<close> (and none when there are
  at most \<open>- n\<close> tokens).
\<close>

theorem top_n_palavras_nonpositive:
  "top_n_palavras texto 0 = []
   \<and> (n < 0 \<longrightarrow>
        top_n_palavras texto n =
          take (card (set (py_split (py_lower texto))) - nat (- n))
            (top_n_palavras texto (int (card (set (py_split (py_lower texto))))))
        \<and> length (top_n_palavras texto n)
            = card (set (py_split (py_lower texto))) - nat (- n))"
proof -
  let ?m = "card (set (py_split (py_lower texto)))"
  let ?r = "py_sorted_reverse snd (contar_frequencia texto)"
  have l: "length ?r = ?m"
    by (simp add: py_sorted_reverse_def length_contar_frequencia)
  have z: "top_n_palavras texto 0 = []"
    by (simp add: top_n_palavras_def py_slice_to_def)
  have full: "top_n_palavras texto (int ?m) = ?r"
    using l by (simp add: top_n_palavras_def py_slice_to_def)
  have neg: "top_n_palavras texto n = take (?m - nat (- n)) ?r" if "n < 0"
  proof -
    have "nat (max (n + int ?m) 0) = ?m - nat (- n)" using that by linarith
    with that l show ?thesis
      by (simp add: top_n_palavras_def py_slice_to_def Let_def)
  qed
  have len: "length (top_n_palavras texto n) = ?m - nat (- n)" if "n < 0"
    using neg [OF that] l by simp
  from z full neg len show ?thesis by simp
qed

theorem top_n_palavras_nonpositive_witness:
  "(- 1 :: int) < 0 \<and> length (top_n_palavras ''a b c'' (- 1)) = 2"
proof -
  have c: "card (set (py_split (py_lower ''a b c''))) = 3" by code_simp
  have neg: "(- 1 :: int) < 0" by simp
  from top_n_palavras_nonpositive [of "''a b c''" "- 1"] neg
  have "length (top_n_palavras ''a b c'' (- 1))
      = card (set (py_split (py_lower ''a b c''))) - nat (- (- 1))"
    by blast
  then show ?thesis by (simp add: c)
qed

text \<open>
  Claim C4 as stated fails: on the text \<open>a b\<close> and \<open>n = - 1\<close> the result has one entry.
\<close>

theorem top_n_palavras_negative_counterexample:
  "top_n_palavras ''a b'' (- 1) = [(''a'', 1)]"
  by code_simp

section \<open>Password strength\<close>

lemma codepoint_range:
  "(a \<le> codepoint c \<and> codepoint c \<le> b) = (c \<in> char_of ` {a..b})" if "b < 256"
proof
  assume h: "a \<le> codepoint c \<and> codepoint c \<le> b"
  have "char_of (codepoint c) = c" by (simp add: codepoint_def)
  with h show "c \<in> char_of ` {a..b}"
    by (metis atLeastAtMost_iff imageI)
next
  assume "c \<in> char_of ` {a..b}"
  then obtain k where k: "a \<le> k" "k \<le> b" "c = char_of k" by auto
  with that have "codepoint c = k" by (simp add: codepoint_def)
  with k show "a \<le> codepoint c \<and> codepoint c \<le> b" by simp
qed

lemma codepoint_range_list:
  "b < 256 \<Longrightarrow>
     (a \<le> codepoint c \<and> codepoint c \<le> b) = (c \<in> set (map char_of [a..<Suc b]))"
  by (simp add: codepoint_range atLeastLessThanSuc_atLeastAtMost del: upt_Suc)

lemma classe_maiuscula_set: "classe_maiuscula c = (c \<in> set ''ABCDEFGHIJKLMNOPQRSTUVWXYZ'')"
proof -
  have cp: "codepoint CHR ''A'' = 65" "codepoint CHR ''Z'' = 90"
    by (simp_all add: codepoint_def)
  have "map char_of [65..<Suc 90] = ''ABCDEFGHIJKLMNOPQRSTUVWXYZ''"
    by code_simp
  then show ?thesis
    unfolding classe_maiuscula_def cp
    using codepoint_range_list [of 90 65 c] by simp
qed

lemma classe_minuscula_set: "classe_minuscula c = (c \<in> set ''abcdefghijklmnopqrstuvwxyz'')"
proof -
  have cp: "codepoint CHR ''a'' = 97" "codepoint CHR ''z'' = 122"
    by (simp_all add: codepoint_def)
  have "map char_of [97..<Suc 122] = ''abcdefghijklmnopqrstuvwxyz''"
    by code_simp
  then show ?thesis
    unfolding classe_minuscula_def cp
    using codepoint_range_list [of 122 97 c] by simp
qed

lemma classe_digito_set: "classe_digito c = (c \<in> set ''0123456789'')"
proof -
  have cp: "codepoint CHR ''0'' = 48" "codepoint CHR ''9'' = 57"
    by (simp_all add: codepoint_def)
  have "map char_of [48..<Suc 57] = ''0123456789''"
    by code_simp
  then show ?thesis
    unfolding classe_digito_def cp
    using codepoint_range_list [of 57 48 c] by simp
qed

lemma re_search_inter: "(\<And>c. classe c = (c \<in> A)) \<Longrightarrow> (\<not> re_search classe s) = (set s \<inter> A = {})"
  by (auto simp: re_search_def list_ex_iff)

lemma re_search_fails:
  "(\<not> re_search classe_maiuscula s) = check_fails s FaltaMaiuscula"
  "(\<not> re_search classe_minuscula s) = check_fails s FaltaMinuscula"
  "(\<not> re_search classe_digito s) = check_fails s FaltaNumero"
  "(\<not> re_search classe_especial s) = check_fails s FaltaEspecial"
  unfolding check_fails.simps
  by (rule re_search_inter, rule classe_maiuscula_set classe_minuscula_set classe_digito_set
        classe_especial_def)+

text \<open>
  Claim C7. For every string, \<open>validate_password_strength\<close> returns a flag that is true
  exactly when the list of reasons is empty, and the reasons are, in the fixed order
  minimum length 8, uppercase, lowercase, digit, special character, those whose check
  fails.
\<close>

theorem validar_senha_forte_reasons:
  "validar_senha_forte s =
     (filter (check_fails s)
        [MinimoCaracteres, FaltaMaiuscula, FaltaMinuscula, FaltaNumero, FaltaEspecial] = [],
      filter (check_fails s)
        [MinimoCaracteres, FaltaMaiuscula, FaltaMinuscula, FaltaNumero, FaltaEspecial])"
  unfolding validar_senha_forte_def re_search_fails Let_def
  by (simp del: check_fails.simps add: check_fails.simps(1) [symmetric])

section \<open>Merge sort\<close>

lemma mesclar_step_left:
  assumes "sorted E" "sorted D" "sorted R"
    and "\<forall>x\<in>set R. \<forall>y\<in>set (drop i E) \<union> set (drop j D). x \<le> y"
    and "i < length E" "j < length D" "E ! i \<le> D ! j"
  shows "sorted (R @ [E ! i])"
    and "\<forall>x\<in>set (R @ [E ! i]). \<forall>y\<in>set (drop (Suc i) E) \<union> set (drop j D). x \<le> y"
    and "mset (R @ [E ! i]) + mset (drop (Suc i) E) = mset R + mset (drop i E)"
proof -
  have dE: "drop i E = E ! i # drop (Suc i) E"
    using assms(5) by (simp add: Cons_nth_drop_Suc)
  have dD: "drop j D = D ! j # drop (Suc j) D"
    using assms(6) by (simp add: Cons_nth_drop_Suc)
  have sE: "sorted (E ! i # drop (Suc i) E)"
    using assms(1) sorted_wrt_drop [of "(\<le>)" E i] by (simp only: dE)
  have sD: "sorted (D ! j # drop (Suc j) D)"
    using assms(2) sorted_wrt_drop [of "(\<le>)" D j] by (simp only: dD)
  from sE have e1: "\<forall>y\<in>set (drop (Suc i) E). E ! i \<le> y" by simp
  from sD assms(7) have e2: "\<forall>y\<in>set (drop j D). E ! i \<le> y"
    by (auto simp: dD)
  from assms(4) have r1: "\<forall>x\<in>set R. x \<le> E ! i" by (simp add: dE)
  from assms(3) r1 show "sorted (R @ [E ! i])"
    by (simp add: sorted_append)
  from assms(4) e1 e2
  show "\<forall>x\<in>set (R @ [E ! i]). \<forall>y\<in>set (drop (Suc i) E) \<union> set (drop j D). x \<le> y"
    by (auto simp: dE)
  show "mset (R @ [E ! i]) + mset (drop (Suc i) E) = mset R + mset (drop i E)"
    by (simp add: dE)
qed

lemma mesclar_step_right:
  assumes "sorted E" "sorted D" "sorted R"
    and "\<forall>x\<in>set R. \<forall>y\<in>set (drop i E) \<union> set (drop j D). x \<le> y"
    and "i < length E" "j < length D" "\<not> E ! i \<le> D ! j"
  shows "sorted (R @ [D ! j])"
    and "\<forall>x\<in>set (R @ [D ! j]). \<forall>y\<in>set (drop i E) \<union> set (drop (Suc j) D). x \<le> y"
    and "mset (R @ [D ! j]) + mset (drop (Suc j) D) = mset R + mset (drop j D)"
proof -
  have dE: "drop i E = E ! i # drop (Suc i) E"
    using assms(5) by (simp add: Cons_nth_drop_Suc)
  have dD: "drop j D = D ! j # drop (Suc j) D"
    using assms(6) by (simp add: Cons_nth_drop_Suc)
  have sE: "sorted (E ! i # drop (Suc i) E)"
    using assms(1) sorted_wrt_drop [of "(\<le>)" E i] by (simp only: dE)
  have sD: "sorted (D ! j # drop (Suc j) D)"
    using assms(2) sorted_wrt_drop [of "(\<le>)" D j] by (simp only: dD)
  from sD have e1: "\<forall>y\<in>set (drop (Suc j) D). D ! j \<le> y" by simp
  from sE assms(7) have e2: "\<forall>y\<in>set (drop i E). D ! j \<le> y"
    by (auto simp: dE)
  from assms(4) have r1: "\<forall>x\<in>set R. x \<le> D ! j" by (simp add: dD)
  from assms(3) r1 show "sorted (R @ [D ! j])"
    by (simp add: sorted_append)
  from assms(4) e1 e2
  show "\<forall>x\<in>set (R @ [D ! j]). \<forall>y\<in>set (drop i E) \<union> set (drop (Suc j) D). x \<le> y"
    by (auto simp: dD)
  show "mset (R @ [D ! j]) + mset (drop (Suc j) D) = mset R + mset (drop j D)"
    by (simp add: dD)
qed

lemma mesclar_loop_inv:
  assumes "e < length h" "d < length h" "r < length h" "r \<noteq> e" "r \<noteq> d"
    and "sorted (h ! e)" "sorted (h ! d)" "sorted (h ! r)"
    and "\<forall>x\<in>set (h ! r). \<forall>y\<in>set (drop i (h ! e)) \<union> set (drop j (h ! d)). x \<le> y"
  shows "\<exists>res. mesclar_loop e d r i j h = Some res \<and> mesclar_loop_post e d r i j h res"
  using assms
proof (induction "length (h ! e) - i + (length (h ! d) - j)" arbitrary: i j h rule: less_induct)
  case less
  let ?E = "h ! e" and ?D = "h ! d" and ?R = "h ! r"
  show ?case
  proof (cases "i < length ?E \<and> j < length ?D")
    case False
    have "mesclar_loop e d r i j h = Some (i, j, h)"
      by (subst mesclar_loop.simps) (simp only: False if_False)
    moreover have "mesclar_loop_post e d r i j h (i, j, h)"
      using False less.prems by (auto simp: mesclar_loop_post_def)
    ultimately show ?thesis by blast
  next
    case True
    then have i: "i < length ?E" and j: "j < length ?D" by simp_all
    show ?thesis
    proof (cases "?E ! i \<le> ?D ! j")
      case le: True
      define h1 where "h1 = py_append r (?E ! i) h"
      have h1: "length h1 = length h" "h1 ! e = ?E" "h1 ! d = ?D" "h1 ! r = ?R @ [?E ! i]"
        using less.prems(1-5) by (simp_all add: h1_def py_append_def)
      have others: "\<forall>a<length h. a \<noteq> r \<longrightarrow> h1 ! a = h ! a"
        by (simp add: h1_def py_append_def)
      note st = mesclar_step_left [OF less.prems(6-9) i j le]
      have step: "mesclar_loop e d r i j h = mesclar_loop e d r (Suc i) j h1"
        using True le by (subst mesclar_loop.simps) (simp add: h1_def)
      have "\<exists>res. mesclar_loop e d r (Suc i) j h1 = Some res
              \<and> mesclar_loop_post e d r (Suc i) j h1 res"
      proof (rule less.hyps)
        show "length (h1 ! e) - Suc i + (length (h1 ! d) - j)
            < length (h ! e) - i + (length (h ! d) - j)"
          using i by (simp add: h1)
      qed (use less.prems st in \<open>simp_all add: h1\<close>)
      then obtain i' j' h' where run: "mesclar_loop e d r (Suc i) j h1 = Some (i', j', h')"
        and post: "mesclar_loop_post e d r (Suc i) j h1 (i', j', h')"
        by (metis prod_cases3)
      have "mesclar_loop_post e d r i j h (i', j', h')"
        using post others st(3)
        by (simp add: mesclar_loop_post_def h1 add.assoc add.left_commute)
      with step run show ?thesis by simp
    next
      case gt: False
      define h1 where "h1 = py_append r (?D ! j) h"
      have h1: "length h1 = length h" "h1 ! e = ?E" "h1 ! d = ?D" "h1 ! r = ?R @ [?D ! j]"
        using less.prems(1-5) by (simp_all add: h1_def py_append_def)
      have others: "\<forall>a<length h. a \<noteq> r \<longrightarrow> h1 ! a = h ! a"
        by (simp add: h1_def py_append_def)
      note st = mesclar_step_right [OF less.prems(6-9) i j gt]
      have step: "mesclar_loop e d r i j h = mesclar_loop e d r i (Suc j) h1"
        using True gt by (subst mesclar_loop.simps) (simp add: h1_def)
      have "\<exists>res. mesclar_loop e d r i (Suc j) h1 = Some res
              \<and> mesclar_loop_post e d r i (Suc j) h1 res"
      proof (rule less.hyps)
        show "length (h1 ! e) - i + (length (h1 ! d) - Suc j)
            < length (h ! e) - i + (length (h ! d) - j)"
          using j by (simp add: h1)
      qed (use less.prems st in \<open>simp_all add: h1\<close>)
      then obtain i' j' h' where run: "mesclar_loop e d r i (Suc j) h1 = Some (i', j', h')"
        and post: "mesclar_loop_post e d r i (Suc j) h1 (i', j', h')"
        by (metis prod_cases3)
      have "mesclar_loop_post e d r i j h (i', j', h')"
        using post others st(3)
        by (simp add: mesclar_loop_post_def h1 add.assoc add.left_commute)
      with step run show ?thesis by simp
    qed
  qed
qed

lemma py_slice_to_nonneg: "0 \<le> b \<Longrightarrow> py_slice_to xs b = take (nat b) xs"
  by (cases "b \<le> int (length xs)") (simp_all add: py_slice_to_def min_def)

lemma py_slice_from_nonneg: "0 \<le> a \<Longrightarrow> py_slice_from xs a = drop (nat a) xs"
  by (cases "a \<le> int (length xs)") (simp_all add: py_slice_from_def min_def)

lemma mesclar_correct:
  assumes e: "e < length h" and d: "d < length h"
    and se: "sorted (h ! e)" and sd: "sorted (h ! d)"
  shows "\<exists>h'. mesclar e d h = Some (length h, h')
           \<and> length h' = Suc (length h)
           \<and> (\<forall>a<length h. h' ! a = h ! a)
           \<and> sorted (h' ! length h)
           \<and> mset (h' ! length h) = mset (h ! e) + mset (h ! d)"
proof -
  let ?r = "length h"
  define h0 where "h0 = h @ [[]]"
  have h0: "length h0 = Suc ?r" "h0 ! e = h ! e" "h0 ! d = h ! d" "h0 ! ?r = []"
    using e d by (simp_all add: h0_def nth_append)
  have old0: "\<forall>a<length h. h0 ! a = h ! a"
    by (simp add: h0_def nth_append)
  have "\<exists>res. mesclar_loop e d ?r 0 0 h0 = Some res \<and> mesclar_loop_post e d ?r 0 0 h0 res"
    by (rule mesclar_loop_inv) (use e d se sd in \<open>simp_all add: h0\<close>)
  then obtain i j h1 where run: "mesclar_loop e d ?r 0 0 h0 = Some (i, j, h1)"
    and post: "mesclar_loop_post e d ?r 0 0 h0 (i, j, h1)"
    by (metis prod_cases3)
  from post have l1: "length h1 = Suc ?r"
    and old1: "\<forall>a<Suc ?r. a \<noteq> ?r \<longrightarrow> h1 ! a = h0 ! a"
    and s1: "sorted (h1 ! ?r)"
    and b1: "\<forall>x\<in>set (h1 ! ?r). \<forall>y\<in>set (drop i (h ! e)) \<union> set (drop j (h ! d)). x \<le> y"
    and m1: "mset (h1 ! ?r) + mset (drop i (h ! e)) + mset (drop j (h ! d))
               = mset (h ! e) + mset (h ! d)"
    and fin: "length (h ! e) \<le> i \<or> length (h ! d) \<le> j"
    by (simp_all add: mesclar_loop_post_def h0)
  have e1: "h1 ! e = h ! e" and d1: "h1 ! d = h ! d"
    using old1 e d h0 by simp_all
  define h2 where "h2 = py_extend ?r (py_slice_from (h1 ! e) (int i)) h1"
  define h3 where "h3 = py_extend ?r (py_slice_from (h2 ! d) (int j)) h2"
  have d2: "h2 ! d = h ! d"
    using d d1 by (simp add: h2_def py_extend_def)
  have r3: "h3 ! ?r = h1 ! ?r @ drop i (h ! e) @ drop j (h ! d)"
    using l1 d by (simp add: h3_def h2_def py_extend_def py_slice_from_nonneg e1 d1)
  have l3: "length h3 = Suc ?r"
    using l1 by (simp add: h3_def h2_def py_extend_def)
  have old3: "\<forall>a<length h. h3 ! a = h ! a"
    using old1 old0 by (simp add: h3_def h2_def py_extend_def)
  have res: "mesclar e d h = Some (?r, h3)"
    by (simp add: mesclar_def alloc_def h0_def [symmetric] run h2_def h3_def Let_def)
  have sorted3: "sorted (h3 ! ?r)"
  proof -
    have "sorted (drop i (h ! e))" "sorted (drop j (h ! d))"
      using se sd by (simp_all add: sorted_wrt_drop)
    with fin s1 b1 show ?thesis
      by (auto simp: r3 sorted_append)
  qed
  have "mset (h3 ! ?r) = mset (h ! e) + mset (h ! d)"
    using m1 by (simp add: r3 add.assoc)
  with res l3 old3 sorted3 show ?thesis by blast
qed

lemma merge_sort_correct:
  "lista < length h \<Longrightarrow>
     \<exists>r h'. merge_sort lista h = Some (r, h')
       \<and> r < length h' \<and> length h \<le> length h'
       \<and> (\<forall>a<length h. h' ! a = h ! a)
       \<and> sorted (h' ! r) \<and> mset (h' ! r) = mset (h ! lista)"
proof (induction "length (h ! lista)" arbitrary: lista h rule: less_induct)
  case less
  let ?L = "h ! lista"
  show ?case
  proof (cases "length ?L \<le> 1")
    case True
    then have "merge_sort lista h = Some (lista, h)"
      by (subst merge_sort.simps) simp
    moreover from True have "sorted ?L" by (rule sorted01)
    ultimately show ?thesis using less.prems by simp
  next
    case False
    define m where "m = length ?L div 2"
    have m: "0 < m" "m < length ?L" using False by (simp_all add: m_def)
    have meio: "int (length ?L) div 2 = int m" by (simp add: m_def)
    define h1 where "h1 = h @ [take m ?L]"
    have h1: "length h1 = Suc (length h)" "h1 ! length h = take m ?L"
      by (simp_all add: h1_def)
    have old1: "\<forall>a<length h. h1 ! a = h ! a"
      by (simp add: h1_def nth_append)
    have "\<exists>r h'. merge_sort (length h) h1 = Some (r, h')
       \<and> r < length h' \<and> length h1 \<le> length h'
       \<and> (\<forall>a<length h1. h' ! a = h1 ! a)
       \<and> sorted (h' ! r) \<and> mset (h' ! r) = mset (h1 ! length h)"
      by (rule less.hyps) (use m in \<open>simp_all add: h1\<close>)
    then obtain esquerda h2 where run1: "merge_sort (length h) h1 = Some (esquerda, h2)"
      and e2: "esquerda < length h2" and l2: "length h1 \<le> length h2"
      and old2: "\<forall>a<length h1. h2 ! a = h1 ! a"
      and se: "sorted (h2 ! esquerda)" and me: "mset (h2 ! esquerda) = mset (take m ?L)"
      by (auto simp: h1)
    have L2: "h2 ! lista = ?L"
      using old2 old1 less.prems by (simp add: h1)
    define h3 where "h3 = h2 @ [drop m ?L]"
    have h3: "length h3 = Suc (length h2)" "h3 ! length h2 = drop m ?L"
      by (simp_all add: h3_def)
    have old3: "\<forall>a<length h2. h3 ! a = h2 ! a"
      by (simp add: h3_def nth_append)
    have "\<exists>r h'. merge_sort (length h2) h3 = Some (r, h')
       \<and> r < length h' \<and> length h3 \<le> length h'
       \<and> (\<forall>a<length h3. h' ! a = h3 ! a)
       \<and> sorted (h' ! r) \<and> mset (h' ! r) = mset (h3 ! length h2)"
      by (rule less.hyps) (use m in \<open>simp_all add: h3\<close>)
    then obtain direita h4 where run2: "merge_sort (length h2) h3 = Some (direita, h4)"
      and d4: "direita < length h4" and l4: "length h3 \<le> length h4"
      and old4: "\<forall>a<length h3. h4 ! a = h3 ! a"
      and sd: "sorted (h4 ! direita)" and md: "mset (h4 ! direita) = mset (drop m ?L)"
      by (auto simp: h3)
    have e4: "h4 ! esquerda = h2 ! esquerda"
      using old4 old3 e2 by (simp add: h3)
    have e4v: "esquerda < length h4"
      using e2 l4 by (simp add: h3)
    from mesclar_correct [OF e4v d4] se sd e4
    obtain h5 where run3: "mesclar esquerda direita h4 = Some (length h4, h5)"
      and l5: "length h5 = Suc (length h4)"
      and old5: "\<forall>a<length h4. h5 ! a = h4 ! a"
      and s5: "sorted (h5 ! length h4)"
      and m5: "mset (h5 ! length h4) = mset (h4 ! esquerda) + mset (h4 ! direita)"
      by auto
    have res: "merge_sort lista h = Some (length h4, h5)"
      using False
      by (subst merge_sort.simps)
         (simp add: meio py_slice_to_nonneg py_slice_from_nonneg alloc_def
            h1_def [symmetric] run1 L2 h3_def [symmetric] run2 run3)
    have len: "length h \<le> length h4"
      using l2 l4 by (simp add: h1 h3)
    have old: "\<forall>a<length h. h5 ! a = h ! a"
      using old5 old4 old3 old2 old1 l2 l4 by (simp add: h1 h3)
    have "mset (take m ?L) + mset (drop m ?L) = mset ?L"
      by (metis append_take_drop_id mset_append)
    with m5 me md e4 have "mset (h5 ! length h4) = mset ?L"
      by simp
    with res l5 len old s5 show ?thesis by simp
  qed
qed

text \<open>
  Claim C1. For every list of integers \<open>S\<close> (the object at a valid reference \<open>lista\<close> of
  any heap), \<open>merge_sort(S)\<close> returns a list that is a permutation of \<open>S\<close> and is
  non-decreasing, and it never mutates the input list in place: after the call the
  object at \<open>lista\<close>, like every object that existed before, is unchanged.
\<close>

theorem merge_sort_sorts_without_mutation:
  "lista < length h \<Longrightarrow>
     \<exists>r h'. merge_sort lista h = Some (r, h')
       \<and> r < length h'
       \<and> mset (h' ! r) = mset (h ! lista)
       \<and> sorted (h' ! r)
       \<and> h' ! lista = h ! lista
       \<and> (\<forall>a<length h. h' ! a = h ! a)"
proof -
  assume v: "lista < length h"
  from merge_sort_correct [OF v] obtain r h' where
    "merge_sort lista h = Some (r, h')" "r < length h'"
    "\<forall>a<length h. h' ! a = h ! a" "sorted (h' ! r)" "mset (h' ! r) = mset (h ! lista)"
    by blast
  with v show ?thesis by simp
qed

theorem merge_sort_sorts_without_mutation_witness:
  "(0::nat) < length [[3, 1, 2 :: int]]
   \<and> (\<exists>r h'. merge_sort 0 [[3, 1, 2]] = Some (r, h')
         \<and> h' ! r = [1, 2, 3] \<and> h' ! 0 = [3, 1, 2])"
proof -
  have v: "(0::nat) < length [[3, 1, 2 :: int]]" by simp
  from merge_sort_sorts_without_mutation [OF v] obtain r h' where
    run: "merge_sort 0 [[3, 1, 2]] = Some (r, h')" and "h' ! 0 = [3, 1, 2]"
    by auto
  moreover have "map_option (\<lambda>(r, h). h ! r) (merge_sort 0 [[3, 1, 2]]) = Some [1, 2, 3]"
    by code_simp
  ultimately show ?thesis by simp
qed

section \<open>Longest common subsequence\<close>

lemma subseq_snoc:
  "subseq zs (as @ [a]) \<longleftrightarrow> subseq zs as \<or> (\<exists>zs'. zs = zs' @ [a] \<and> subseq zs' as)"
proof -
  have s: "subseq w [a] \<longleftrightarrow> w = [] \<or> w = [a]" for w :: "'a list"
    by (cases w) (auto simp: list_emb_Cons_iff2)
  show ?thesis
    by (auto simp: subseq_append_iff s)
qed

lemma subseq_butlast: "subseq (zs @ [z]) as \<Longrightarrow> subseq zs as"
  by (metis subseq_order.order_trans prefixI prefix_imp_subseq)

lemma lcs_len_upper:
  "i \<le> length xs \<Longrightarrow> j \<le> length ys \<Longrightarrow>
   subseq zs (take i xs) \<Longrightarrow> subseq zs (take j ys) \<Longrightarrow> length zs \<le> lcs_len xs ys i j"
proof (induction xs ys i j arbitrary: zs rule: lcs_len.induct)
  case (1 xs ys j)
  then show ?case by simp
next
  case (2 xs ys i)
  then show ?case by simp
next
  case (3 xs ys i j)
  from "3.prems" have i: "i < length xs" and j: "j < length ys" by simp_all
  have tx: "take (Suc i) xs = take i xs @ [xs ! i]"
    using i by (rule take_Suc_conv_app_nth)
  have ty: "take (Suc j) ys = take j ys @ [ys ! j]"
    using j by (rule take_Suc_conv_app_nth)
  from "3.prems"(3) have cx: "subseq zs (take i xs) \<or> (\<exists>zs'. zs = zs' @ [xs ! i] \<and> subseq zs' (take i xs))"
    by (simp only: tx subseq_snoc)
  from "3.prems"(4) have cy: "subseq zs (take j ys) \<or> (\<exists>zs'. zs = zs' @ [ys ! j] \<and> subseq zs' (take j ys))"
    by (simp only: ty subseq_snoc)
  show ?case
  proof (cases "xs ! i = ys ! j")
    case True
    have "\<exists>w. subseq w (take i xs) \<and> subseq w (take j ys) \<and> length zs \<le> length w + 1"
    proof (cases "subseq zs (take i xs)")
      case sx: True
      show ?thesis
      proof (cases "subseq zs (take j ys)")
        case True
        with sx show ?thesis by (intro exI [of _ zs]) simp
      next
        case False
        with cy obtain w where w: "zs = w @ [ys ! j]" "subseq w (take j ys)" by blast
        with sx have "subseq w (take i xs)" by (auto dest: subseq_butlast)
        with w show ?thesis by (intro exI [of _ w]) simp
      qed
    next
      case False
      with cx obtain w where w: "zs = w @ [xs ! i]" "subseq w (take i xs)" by blast
      from cy w have "subseq w (take j ys)" by (auto dest: subseq_butlast)
      with w show ?thesis by (intro exI [of _ w]) simp
    qed
    then obtain w where w: "subseq w (take i xs)" "subseq w (take j ys)"
      "length zs \<le> length w + 1" by blast
    from "3.IH"(1) [OF True _ _ w(1,2)] i j have "length w \<le> lcs_len xs ys i j" by simp
    with w(3) True show ?thesis by simp
  next
    case False
    have "subseq zs (take i xs) \<or> subseq zs (take j ys)"
      using cx cy False by auto
    then show ?thesis
    proof
      assume sx: "subseq zs (take i xs)"
      from "3.IH"(2) [OF False _ _ sx "3.prems"(4)] i "3.prems"(2)
      have "length zs \<le> lcs_len xs ys i (Suc j)" by simp
      with False show ?thesis by simp
    next
      assume sy: "subseq zs (take j ys)"
      from "3.IH"(3) [OF False _ _ "3.prems"(3) sy] j "3.prems"(1)
      have "length zs \<le> lcs_len xs ys (Suc i) j" by simp
      with False show ?thesis by simp
    qed
  qed
qed

lemma lcs_len_col0 [simp]: "lcs_len xs ys i 0 = 0"
  by (cases i) simp_all

lemma tabela_ok_val:
  "tabela_ok xs ys i j dp \<Longrightarrow> r \<le> length xs \<Longrightarrow> c \<le> length ys \<Longrightarrow>
     r < i \<or> c = 0 \<or> (r = i \<and> c < j) \<Longrightarrow> dp ! r ! c = int (lcs_len xs ys r c)"
  unfolding tabela_ok_def by blast

lemma tabela_ok_dims:
  "tabela_ok xs ys i j dp \<Longrightarrow> length dp = length xs + 1"
  "tabela_ok xs ys i j dp \<Longrightarrow> r \<le> length xs \<Longrightarrow> length (dp ! r) = length ys + 1"
  unfolding tabela_ok_def by blast+

lemma tabela_ok_init:
  "tabela_ok xs ys 1 1 (replicate (length xs + 1) (replicate (length ys + 1) 0))"
  unfolding tabela_ok_def
proof (intro conjI allI impI)
  fix r c
  assume r: "r \<le> length xs" and c: "c \<le> length ys"
    and f: "r < 1 \<or> c = 0 \<or> (r = 1 \<and> c < 1)"
  have "replicate (length xs + 1) (replicate (length ys + 1) (0::int)) ! r ! c = 0"
    using r c by (simp add: nth_replicate del: replicate_Suc replicate.simps)
  moreover from f have "lcs_len xs ys r c = 0" by auto
  ultimately show "replicate (length xs + 1) (replicate (length ys + 1) 0) ! r ! c
      = int (lcs_len xs ys r c)" by simp
next
  fix r assume "r \<le> length xs"
  then show "length (replicate (length xs + 1) (replicate (length ys + 1) (0::int)) ! r)
      = length ys + 1"
    by (simp add: nth_replicate del: replicate_Suc replicate.simps)
qed simp

lemma tabela_ok_celula:
  assumes ok: "tabela_ok xs ys i j dp"
    and i: "1 \<le> i" "i \<le> length xs" and j: "1 \<le> j" "j \<le> length ys"
  shows "tabela_ok xs ys i (Suc j) (mdc_celula xs ys i dp j)"
proof -
  obtain i' j' where ij: "i = Suc i'" "j = Suc j'"
    using i j by (metis Suc_le_D One_nat_def)
  let ?v = "if xs ! i' = ys ! j' then dp ! i' ! j' + 1 else max (dp ! i' ! j) (dp ! i ! j')"
  have cel: "mdc_celula xs ys i dp j = dp[i := (dp ! i)[j := ?v]]"
    by (simp add: mdc_celula_def ij)
  note len = tabela_ok_dims(1) [OF ok] and row = tabela_ok_dims(2) [OF ok]
    and val = tabela_ok_val [OF ok]
  have a: "dp ! i' ! j' = int (lcs_len xs ys i' j')"
    using i j by (intro val) (simp_all add: ij)
  have b: "dp ! i' ! j = int (lcs_len xs ys i' j)"
    using i j by (intro val) (simp_all add: ij)
  have c: "dp ! i ! j' = int (lcs_len xs ys i j')"
    using i j by (intro val) (simp_all add: ij)
  have v: "?v = int (lcs_len xs ys i j)"
    by (simp add: a b c) (auto simp: ij max_def)
  have il: "i < length dp" using i len by simp
  have jl: "j < length (dp ! i)" using row [OF i(2)] j by simp
  show ?thesis
    unfolding tabela_ok_def cel
  proof (intro conjI allI impI)
    show "length (dp[i := (dp ! i)[j := ?v]]) = length xs + 1"
      using len by simp
  next
    fix r assume "r \<le> length xs"
    then show "length (dp[i := (dp ! i)[j := ?v]] ! r) = length ys + 1"
      using row [of r] il by (cases "r = i") simp_all
  next
    fix r c
    assume r: "r \<le> length xs" and c: "c \<le> length ys"
      and f: "r < i \<or> c = 0 \<or> (r = i \<and> c < Suc j)"
    show "dp[i := (dp ! i)[j := ?v]] ! r ! c = int (lcs_len xs ys r c)"
    proof (cases "r = i \<and> c = j")
      case True
      with il jl v show ?thesis by simp
    next
      case False
      then have "dp[i := (dp ! i)[j := ?v]] ! r ! c = dp ! r ! c"
        using il by (cases "r = i") auto
      moreover from f False have "r < i \<or> c = 0 \<or> (r = i \<and> c < j)" by auto
      ultimately show ?thesis using val [OF r c] by simp
    qed
  qed
qed

lemma tabela_ok_linha_from:
  "tabela_ok xs ys i j dp \<Longrightarrow> 1 \<le> i \<Longrightarrow> i \<le> length xs \<Longrightarrow> 1 \<le> j \<Longrightarrow>
     j \<le> length ys + 1 \<Longrightarrow>
     tabela_ok xs ys i (length ys + 1) (foldl (mdc_celula xs ys i) dp [j..<length ys + 1])"
proof (induction "length ys + 1 - j" arbitrary: j dp)
  case 0
  then have "j = length ys + 1" by simp
  with "0.prems"(1) show ?case by simp
next
  case (Suc k)
  then have jn: "j \<le> length ys" by simp
  then have up: "[j..<length ys + 1] = j # [Suc j..<length ys + 1]"
    by (simp add: upt_rec)
  have st: "tabela_ok xs ys i (Suc j) (mdc_celula xs ys i dp j)"
    using Suc.prems jn by (intro tabela_ok_celula) simp_all
  have "tabela_ok xs ys i (length ys + 1)
          (foldl (mdc_celula xs ys i) (mdc_celula xs ys i dp j) [Suc j..<length ys + 1])"
    using Suc.hyps(2) Suc.prems jn by (intro Suc.hyps(1) st) simp_all
  then show ?case by (simp only: up foldl_Cons)
qed

lemma tabela_ok_next_row:
  assumes ok: "tabela_ok xs ys i (length ys + 1) dp"
  shows "tabela_ok xs ys (Suc i) 1 dp"
  unfolding tabela_ok_def
proof (intro conjI allI impI)
  fix r c
  assume r: "r \<le> length xs" and c: "c \<le> length ys"
    and f: "r < Suc i \<or> c = 0 \<or> (r = Suc i \<and> c < 1)"
  from f c have "r < i \<or> c = 0 \<or> (r = i \<and> c < length ys + 1)" by auto
  then show "dp ! r ! c = int (lcs_len xs ys r c)"
    by (rule tabela_ok_val [OF ok r c])
qed (simp_all add: tabela_ok_dims [OF ok])

lemma tabela_ok_linha:
  "tabela_ok xs ys i 1 dp \<Longrightarrow> 1 \<le> i \<Longrightarrow> i \<le> length xs \<Longrightarrow>
     tabela_ok xs ys (Suc i) 1 (mdc_linha xs ys dp i)"
  unfolding mdc_linha_def
  by (rule tabela_ok_next_row, rule tabela_ok_linha_from) simp_all

lemma tabela_ok_linhas_from:
  "tabela_ok xs ys i 1 dp \<Longrightarrow> 1 \<le> i \<Longrightarrow> i \<le> length xs + 1 \<Longrightarrow>
     tabela_ok xs ys (length xs + 1) 1 (foldl (mdc_linha xs ys) dp [i..<length xs + 1])"
proof (induction "length xs + 1 - i" arbitrary: i dp)
  case 0
  then have "i = length xs + 1" by simp
  with "0.prems"(1) show ?case by simp
next
  case (Suc k)
  then have im: "i \<le> length xs" by simp
  then have up: "[i..<length xs + 1] = i # [Suc i..<length xs + 1]"
    by (simp add: upt_rec)
  have st: "tabela_ok xs ys (Suc i) 1 (mdc_linha xs ys dp i)"
    using Suc.prems im by (intro tabela_ok_linha) simp_all
  have "tabela_ok xs ys (length xs + 1) 1
          (foldl (mdc_linha xs ys) (mdc_linha xs ys dp i) [Suc i..<length xs + 1])"
    using Suc.hyps(2) Suc.prems im by (intro Suc.hyps(1) st) simp_all
  then show ?case by (simp only: up foldl_Cons)
qed

lemma mdc_tabela_lcs_len:
  "i \<le> length xs \<Longrightarrow> j \<le> length ys \<Longrightarrow> mdc_tabela xs ys ! i ! j = int (lcs_len xs ys i j)"
proof -
  assume i: "i \<le> length xs" and j: "j \<le> length ys"
  have "tabela_ok xs ys (length xs + 1) 1
          (foldl (mdc_linha xs ys) (replicate (length xs + 1) (replicate (length ys + 1) 0))
             [1..<length xs + 1])"
    by (rule tabela_ok_linhas_from [OF tabela_ok_init]) simp_all
  then have "tabela_ok xs ys (length xs + 1) 1 (mdc_tabela xs ys)"
    by (simp only: mdc_tabela_def Let_def)
  with i j show ?thesis
    by (simp add: tabela_ok_def)
qed

lemma mdc_reconstruir_correct:
  "(\<forall>r\<le>length xs. \<forall>c\<le>length ys. dp ! r ! c = int (lcs_len xs ys r c)) \<Longrightarrow>
   i \<le> length xs \<Longrightarrow> j \<le> length ys \<Longrightarrow>
     \<exists>w. mdc_reconstruir xs ys dp i j acc = acc @ rev w
        \<and> subseq w (take i xs) \<and> subseq w (take j ys)
        \<and> length w = lcs_len xs ys i j"
proof (induction xs ys dp i j acc rule: mdc_reconstruir.induct)
  case (1 xs ys dp i j acc)
  note tab = "1.prems"(1) and il = "1.prems"(2) and jl = "1.prems"(3)
  show ?case
  proof (cases "i > 0 \<and> j > 0")
    case False
    then have "mdc_reconstruir xs ys dp i j acc = acc"
      by (subst mdc_reconstruir.simps) (simp only: False if_False)
    moreover from False have "lcs_len xs ys i j = 0" by auto
    ultimately show ?thesis by (intro exI [of _ "[]"]) simp
  next
    case True
    then obtain i' j' where ij: "i = Suc i'" "j = Suc j'"
      by (metis gr0_implies_Suc)
    have i': "i' < length xs" and j': "j' < length ys" using il jl ij by simp_all
    have il': "i - 1 \<le> length xs" and jl': "j - 1 \<le> length ys" using il jl by simp_all
    have tx: "take (Suc i') xs = take i' xs @ [xs ! i']"
      using i' by (rule take_Suc_conv_app_nth)
    have ty: "take (Suc j') ys = take j' ys @ [ys ! j']"
      using j' by (rule take_Suc_conv_app_nth)
    show ?thesis
    proof (cases "xs ! (i - 1) = ys ! (j - 1)")
      case eq: True
      have step: "mdc_reconstruir xs ys dp i j acc
          = mdc_reconstruir xs ys dp (i - 1) (j - 1) (acc @ [xs ! (i - 1)])"
        using True eq by (subst mdc_reconstruir.simps) simp
      from "1.IH"(1) [OF True eq tab il' jl']
      obtain w where w: "mdc_reconstruir xs ys dp (i - 1) (j - 1) (acc @ [xs ! (i - 1)])
            = (acc @ [xs ! (i - 1)]) @ rev w"
        "subseq w (take (i - 1) xs)" "subseq w (take (j - 1) ys)"
        "length w = lcs_len xs ys (i - 1) (j - 1)"
        by auto
      let ?w = "w @ [xs ! i']"
      have "mdc_reconstruir xs ys dp i j acc = acc @ rev ?w"
        using step w(1) by (simp add: ij)
      moreover have "subseq ?w (take i xs)"
        using w(2) by (simp add: tx ij)
      moreover have "subseq ?w (take j ys)"
        using w(3) eq by (simp add: ty ij)
      moreover have "length ?w = lcs_len xs ys i j"
        using w(4) eq by (simp add: ij)
      ultimately show ?thesis by blast
    next
      case ne: False
      have a: "dp ! (i - 1) ! j = int (lcs_len xs ys i' j)"
        using tab il jl by (simp add: ij)
      have b: "dp ! i ! (j - 1) = int (lcs_len xs ys i j')"
        using tab il jl by (simp add: ij)
      have L: "lcs_len xs ys i j = max (lcs_len xs ys i' j) (lcs_len xs ys i j')"
        using ne by (simp add: ij)
      show ?thesis
      proof (cases "dp ! (i - 1) ! j > dp ! i ! (j - 1)")
        case up: True
        have step: "mdc_reconstruir xs ys dp i j acc
            = mdc_reconstruir xs ys dp (i - 1) j acc"
          using True ne up by (subst mdc_reconstruir.simps) simp
        from "1.IH"(2) [OF True ne up tab il' jl]
        obtain w where w: "mdc_reconstruir xs ys dp (i - 1) j acc = acc @ rev w"
          "subseq w (take (i - 1) xs)" "subseq w (take j ys)"
          "length w = lcs_len xs ys (i - 1) j"
          by auto
        have "subseq w (take i xs)"
          using w(2) by (simp add: tx ij subseq_rev_drop_many)
        moreover have "length w = lcs_len xs ys i j"
          using w(4) up a b L by (simp add: ij)
        ultimately show ?thesis using step w(1,3) by auto
      next
        case left: False
        have step: "mdc_reconstruir xs ys dp i j acc
            = mdc_reconstruir xs ys dp i (j - 1) acc"
          using True ne left by (subst mdc_reconstruir.simps) simp
        from "1.IH"(3) [OF True ne left tab il jl']
        obtain w where w: "mdc_reconstruir xs ys dp i (j - 1) acc = acc @ rev w"
          "subseq w (take i xs)" "subseq w (take (j - 1) ys)"
          "length w = lcs_len xs ys i (j - 1)"
          by auto
        have "subseq w (take j ys)"
          using w(3) by (simp add: ty ij subseq_rev_drop_many)
        moreover have "length w = lcs_len xs ys i j"
          using w(4) left a b L by (simp add: ij)
        ultimately show ?thesis using step w(1,2) by auto
      qed
    qed
  qed
qed

text \<open>
  Claim C3. For every pair of strings, \<open>longest_common_subsequence\<close> returns a
  subsequence of both whose length is the maximum over all their common subsequences;
  on \<open>AGGTAB\<close> and \<open>GXTXAYB\<close> the result has length 4.
\<close>

theorem mdc_sequencias_longest_common_subsequence:
  "subseq (mdc_sequencias seq1 seq2) seq1
   \<and> subseq (mdc_sequencias seq1 seq2) seq2
   \<and> (\<forall>zs. subseq zs seq1 \<and> subseq zs seq2 \<longrightarrow>
          length zs \<le> length (mdc_sequencias seq1 seq2))
   \<and> length (mdc_sequencias ''AGGTAB'' ''GXTXAYB'') = 4"
proof -
  let ?m = "length seq1" and ?n = "length seq2"
  have "\<exists>w. mdc_reconstruir seq1 seq2 (mdc_tabela seq1 seq2) ?m ?n [] = [] @ rev w
        \<and> subseq w (take ?m seq1) \<and> subseq w (take ?n seq2)
        \<and> length w = lcs_len seq1 seq2 ?m ?n"
    by (rule mdc_reconstruir_correct) (simp_all add: mdc_tabela_lcs_len)
  then obtain w where w: "mdc_reconstruir seq1 seq2 (mdc_tabela seq1 seq2) ?m ?n [] = rev w"
    "subseq w seq1" "subseq w seq2" "length w = lcs_len seq1 seq2 ?m ?n"
    by auto
  have r: "mdc_sequencias seq1 seq2 = w"
    by (simp add: mdc_sequencias_def w(1))
  have best: "length zs \<le> length w" if "subseq zs seq1" "subseq zs seq2" for zs
    using lcs_len_upper [of ?m seq1 ?n seq2 zs] that w(4) by simp
  have ex: "length (mdc_sequencias ''AGGTAB'' ''GXTXAYB'') = 4"
    by code_simp
  from w(2,3) best ex show ?thesis
    unfolding r by blast
qed

theorem mdc_sequencias_longest_common_subsequence_witness:
  "subseq ''GTAB'' ''AGGTAB'' \<and> subseq ''GTAB'' ''GXTXAYB''
     \<and> length ''GTAB'' \<le> length (mdc_sequencias ''AGGTAB'' ''GXTXAYB'')
     \<and> mdc_sequencias ''AGGTAB'' ''GXTXAYB'' = ''GTAB''"
proof -
  have a: "subseq ''GTAB'' ''AGGTAB''" and b: "subseq ''GTAB'' ''GXTXAYB''"
    by simp_all
  have c: "mdc_sequencias ''AGGTAB'' ''GXTXAYB'' = ''GTAB''"
    by code_simp
  from mdc_sequencias_longest_common_subsequence [of "''AGGTAB''" "''GXTXAYB''"] a b
  have "length ''GTAB'' \<le> length (mdc_sequencias ''AGGTAB'' ''GXTXAYB'')"
    by blast
  with a b c show ?thesis by blast
qed

end
